theory Spec2Isabelle
  imports Complex_Main "HOL-Library.Word" "HOL-Library.Multiset" "HOL-Library.Signed_Division"
    "HOL-Library.AList"
begin

unbundle bit_operations_syntax

chapter \<open>KeyFlare: hot-key detection and mitigation\<close>

text \<open>
  A shallow embedding of the detection and mitigation engine: the engine facade
  (package internal), the policy manager and the local-cache policy (package policy),
  the snapshot history (package metrics), the Count-Min Sketch and the Space-Saving
  structure (package algorithm) and the detector (package detector).

  Conventions. Go's \<open>uint64\<close> is \<open>64 word\<close>, \<open>uint32\<close> is \<open>32 word\<close>; Go's \<open>int\<close>
  (slice indices and lengths) is \<open>int\<close>, far from its 64-bit bounds. A \<open>time.Time\<close> is an
  \<open>int\<close> (nanoseconds), and every reading of \<open>time.Now()\<close> is an argument of the
  operation that takes it. A run-time panic is the value \<open>None\<close>. A \<open>float64\<close> of a
  configuration is a \<open>real\<close>; the only float arithmetic of the modelled code is the
  jitter of the local cache and the decay of counters, and both are arguments.
\<close>

section \<open>Engine facade (package internal)\<close>

datatype engine_error =
    ErrAlreadyInitialized  \<comment> \<open>"KeyFlare is already initialized"\<close>
  | ErrNotInitialized      \<comment> \<open>"KeyFlare is not initialized"\<close>
  | ErrAlreadyRunning      \<comment> \<open>"KeyFlare is already running"\<close>
  | ErrNotRunning          \<comment> \<open>"KeyFlare is not running"\<close>
  | ErrMetrics string      \<comment> \<open>an error returned by the metrics collector\<close>

text \<open>
  The \<open>KeyFlare\<close> struct. The detector, policy manager and configuration it holds play
  no role in the lifecycle functions; \<open>metrics\<close> is kept as the flag "the collector is
  not nil".
\<close>

record KeyFlare =
  metrics :: bool
  isRunning :: bool

text \<open>
  The package variable \<open>globalInstance\<close> is a \<open>KeyFlare option\<close>. The outcome of the
  collector's own \<open>Start\<close> / \<open>Stop\<close> (an HTTP server) is an argument.
\<close>

definition Start :: "string option \<Rightarrow> KeyFlare option \<Rightarrow> engine_error option \<times> KeyFlare option" where
  "Start metricsStart globalInstance =
     (case globalInstance of
        None \<Rightarrow> (Some ErrNotInitialized, None)
      | Some kf \<Rightarrow>
          if isRunning kf then (Some ErrAlreadyRunning, Some kf)
          else if metrics kf then
            (case metricsStart of
               Some err \<Rightarrow> (Some (ErrMetrics err), Some kf)
             | None \<Rightarrow> (None, Some (kf\<lparr>isRunning := True\<rparr>)))
          else (None, Some (kf\<lparr>isRunning := True\<rparr>)))"

definition Stop :: "string option \<Rightarrow> KeyFlare option \<Rightarrow> engine_error option \<times> KeyFlare option" where
  "Stop metricsStop globalInstance =
     (case globalInstance of
        None \<Rightarrow> (Some ErrNotInitialized, None)
      | Some kf \<Rightarrow>
          if isRunning kf then
            (if metrics kf then
               (case metricsStop of
                  Some err \<Rightarrow> (Some (ErrMetrics err), Some kf)
                | None \<Rightarrow> (None, None))
             else (None, None))
          else (None, None))"

section \<open>Local-cache policy (package policy)\<close>

record LocalCacheConfig =
  TTL :: real
  Jitter :: real
  Capacity :: real
  RefreshAhead :: real

record 'v CacheItem =
  ci_Key :: string
  ci_Value :: 'v
  Expiration :: int
  RefreshAt :: int

record 'v localCachePolicy =
  config :: LocalCacheConfig
  cache :: "string \<rightharpoonup> 'v CacheItem"
  size :: int

text \<open>The dynamic type of \<open>Context.Data\<close>: the two request structs, or anything else.\<close>

datatype 'v request = GetRequest | SetRequest 'v "real option" | OtherData

datatype 'v directive =
    CacheHit string 'v bool
  | CacheMiss string
  | CacheSet string real
  | KeySplittingGetAction string string "string list"
  | KeySplittingSetAction string "string list" 'v "real option"

datatype policy_error =
    UnsupportedOperation
  | InvalidParameters string
  | UnsupportedPolicyType string
  | InvalidPattern string
      \<comment> \<open>the error of \<open>regexp.Compile\<close>, as \<open>RegisterPattern\<close> returns it\<close>
  | InvalidWhitelistPattern string policy_error
      \<comment> \<open>"invalid whitelist pattern '%s': %w", the error of \<open>New\<close>\<close>

definition newLocalCachePolicy :: "LocalCacheConfig \<Rightarrow> 'v localCachePolicy" where
  "newLocalCachePolicy c = \<lparr>config = c, cache = Map.empty, size = 0\<rparr>"

text \<open>
  The conversions \<open>int(x)\<close> and \<open>time.Duration(x)\<close> of a float64 discard the fraction.
\<close>

definition float_to_int :: "real \<Rightarrow> int" where
  "float_to_int x = (if 0 \<le> x then \<lfloor>x\<rfloor> else \<lceil>x\<rceil>)"

definition Second :: int where
  "Second = 1000000000"

text \<open>
  \<open>calculateTTLWithJitter\<close>. The argument \<open>randomValue\<close> is the float the code makes of
  eight random bytes (a signed 64-bit integer divided by \<open>MaxInt64\<close>); it is read only
  when \<open>Jitter > 0\<close>.
\<close>

definition calculateTTLWithJitter :: "real \<Rightarrow> 'v localCachePolicy \<Rightarrow> real" where
  "calculateTTLWithJitter randomValue p =
     (if Jitter (config p) \<le> 0 then TTL (config p)
      else (let jitterRange = TTL (config p) * Jitter (config p);
                jitter = randomValue * jitterRange
            in TTL (config p) + jitter))"

text \<open>
  \<open>evictLRU\<close> ranges over the map. Go leaves the order of that iteration open, so the
  order is the argument \<open>keys\<close> (the keys of the map, as the runtime enumerates them).
  The loop state is \<open>(oldestKey, oldestTime, first)\<close>.
\<close>

definition evict_step :: "(string \<rightharpoonup> 'v CacheItem) \<Rightarrow> string \<times> int \<times> bool \<Rightarrow> string \<Rightarrow> string \<times> int \<times> bool" where
  "evict_step m st key =
     (case st of (oldestKey, oldestTime, first) \<Rightarrow>
        (case m key of
           None \<Rightarrow> st
         | Some item \<Rightarrow>
             if first \<or> Expiration item < oldestTime
             then (key, Expiration item, False)
             else st))"

definition evictLRU :: "string list \<Rightarrow> 'v localCachePolicy \<Rightarrow> 'v localCachePolicy" where
  "evictLRU keys p =
     (case foldl (evict_step (cache p)) ('''', 0, True) keys of
        (oldestKey, oldestTime, first) \<Rightarrow>
          if oldestKey \<noteq> '''' then p\<lparr>cache := (cache p)(oldestKey := None), size := size p - 1\<rparr>
          else p)"

text \<open>
  \<open>handleGet\<close>: \<open>now1\<close> is the clock read by \<open>IsExpired\<close>, \<open>now2\<close> the one read by
  \<open>ShouldRefresh\<close>.
\<close>

definition handleGet :: "int \<Rightarrow> int \<Rightarrow> string \<Rightarrow> 'v localCachePolicy \<Rightarrow> 'v directive \<times> 'v localCachePolicy" where
  "handleGet now1 now2 key p =
     (case cache p key of
        None \<Rightarrow> (CacheMiss key, p)
      | Some item \<Rightarrow>
          if now1 > Expiration item
          then (CacheMiss key, p\<lparr>cache := (cache p)(key := None), size := size p - 1\<rparr>)
          else (CacheHit key (ci_Value item) (now2 > RefreshAt item), p))"

text \<open>
  \<open>handleSet\<close>: \<open>now1\<close> and \<open>now2\<close> are the two readings of the clock (for the expiration
  and for the refresh time), \<open>keys\<close> the iteration order of an eviction and
  \<open>randomValue\<close> the random draw. The request's fields are \<open>v\<close> (Value) and \<open>ttl_override\<close>
  (TTL, "Optional TTL override").
\<close>

definition handleSet :: "int \<Rightarrow> int \<Rightarrow> string list \<Rightarrow> real \<Rightarrow> string \<Rightarrow> 'v \<Rightarrow> real option \<Rightarrow> 'v localCachePolicy
    \<Rightarrow> 'v directive \<times> 'v localCachePolicy" where
  "handleSet now1 now2 keys randomValue key v ttl_override p =
     (let p1 = (if cache p key = None \<and> size p \<ge> float_to_int (Capacity (config p))
                then evictLRU keys p else p);
          ttl = calculateTTLWithJitter randomValue p1;
          expiration = now1 + float_to_int ttl * Second;
          refreshAt = now2 + float_to_int (ttl * RefreshAhead (config p1)) * Second;
          item = \<lparr>ci_Key = key, ci_Value = v, Expiration = expiration, RefreshAt = refreshAt\<rparr>;
          p2 = (if cache p1 key = None then p1\<lparr>size := size p1 + 1\<rparr> else p1)
      in (CacheSet key ttl, p2\<lparr>cache := (cache p2)(key \<mapsto> item)\<rparr>))"

text \<open>What one call of \<open>localCachePolicy.Apply\<close> takes from its environment.\<close>

record env =
  now1 :: int
  now2 :: int
  range_keys :: "string list"
  randomValue :: real

definition localCachePolicy_Apply :: "env \<Rightarrow> string \<Rightarrow> 'v request \<Rightarrow> 'v localCachePolicy
    \<Rightarrow> (policy_error + 'v directive) \<times> 'v localCachePolicy" where
  "localCachePolicy_Apply e key req p =
     (case req of
        GetRequest \<Rightarrow> (case handleGet (now1 e) (now2 e) key p of (d, p') \<Rightarrow> (Inr d, p'))
      | SetRequest v t \<Rightarrow>
          (case handleSet (now1 e) (now2 e) (range_keys e) (randomValue e) key v t p of
             (d, p') \<Rightarrow> (Inr d, p'))
      | OtherData \<Rightarrow> (Inl UnsupportedOperation, p))"

text \<open>A sequence of calls, each with its environment.\<close>

fun apply_all :: "(env \<times> string \<times> 'v request) list \<Rightarrow> 'v localCachePolicy \<Rightarrow> 'v localCachePolicy" where
  "apply_all [] p = p"
| "apply_all ((e, key, req) # rest) p = apply_all rest (snd (localCachePolicy_Apply e key req p))"

section \<open>Policy manager (package policy)\<close>

record KeySplittingConfig =
  Shards :: int

text \<open>The dynamic type of \<open>Config.Parameters\<close>.\<close>

datatype parameters =
    LocalCacheParameters LocalCacheConfig
  | KeySplittingParameters KeySplittingConfig
  | OtherParameters

record Config =
  Type :: string
  Parameters :: parameters
  WhitelistKeys :: "string list"
  WhitelistPatterns :: "string list"

datatype 'v Policy =
    LocalCachePolicy "'v localCachePolicy"
  | KeySplittingPolicy KeySplittingConfig

record ('v, 'r) manager =
  policy :: "'v Policy"
  patternRegexps :: "string \<rightharpoonup> 'r"
  whitelistKeys :: "string \<rightharpoonup> bool"

text \<open>
  \<open>regexp.Compile\<close> belongs to Go's library: it is the argument \<open>compile\<close>, which gives
  the compiled expression or the message of a syntax error (\<open>Inl\<close>).
\<close>

definition RegisterPattern :: "(string \<Rightarrow> string + 'r) \<Rightarrow> string \<Rightarrow> ('v, 'r) manager
    \<Rightarrow> policy_error option \<times> ('v, 'r) manager" where
  "RegisterPattern compile pattern m =
     (case compile pattern of
        Inl err \<Rightarrow> (Some (InvalidPattern err), m)
      | Inr r \<Rightarrow> (None, m\<lparr>patternRegexps := (patternRegexps m)(pattern \<mapsto> r)\<rparr>))"

text \<open>The loop of \<open>policy.New\<close> over \<open>config.WhitelistPatterns\<close>, which returns at the first error.\<close>

fun register_all :: "(string \<Rightarrow> string + 'r) \<Rightarrow> string list \<Rightarrow> ('v, 'r) manager
    \<Rightarrow> policy_error + ('v, 'r) manager" where
  "register_all compile [] m = Inr m"
| "register_all compile (pattern # rest) m =
     (case RegisterPattern compile pattern m of
        (Some err, _) \<Rightarrow> Inl (InvalidWhitelistPattern pattern err)
      | (None, m') \<Rightarrow> register_all compile rest m')"

definition policy_New :: "(string \<Rightarrow> string + 'r) \<Rightarrow> Config \<Rightarrow> policy_error + ('v, 'r) manager" where
  "policy_New compile cfg =
     (let p =
        (if Type cfg = ''local-cache'' then
           (case Parameters cfg of
              LocalCacheParameters params \<Rightarrow> Inr (LocalCachePolicy (newLocalCachePolicy params))
            | _ \<Rightarrow> Inl (InvalidParameters ''LocalCacheConfig''))
         else if Type cfg = ''key-splitting'' then
           (case Parameters cfg of
              KeySplittingParameters params \<Rightarrow> Inr (KeySplittingPolicy params)
            | _ \<Rightarrow> Inl (InvalidParameters ''KeySplittingConfig''))
         else Inl (UnsupportedPolicyType (Type cfg)))
      in case p of
           Inl e \<Rightarrow> Inl e
         | Inr pol \<Rightarrow>
             register_all compile (WhitelistPatterns cfg)
               \<lparr>policy = pol, patternRegexps = Map.empty,
                whitelistKeys = foldl (\<lambda>w key. w(key \<mapsto> True)) Map.empty (WhitelistKeys cfg)\<rparr>)"

section \<open>Snapshot history (package metrics)\<close>

text \<open>\<open>detector.KeyCount\<close>: a key and its estimated count.\<close>

record KeyCount =
  kc_Key :: string
  kc_Count :: "64 word"

record KeyMetadata =
  FirstSeen :: int
  LastSeen :: int
  PrevCount :: "64 word"

record HotKeySnapshot =
  Timestamp :: int
  Keys :: "KeyCount list"
  KeyMeta :: "string \<rightharpoonup> KeyMetadata"

record hotKeyHistory =
  snapshots :: "HotKeySnapshot list"
  maxSize :: int
  keyMeta :: "string \<rightharpoonup> KeyMetadata"

definition newHotKeyHistory :: "int \<Rightarrow> hotKeyHistory" where
  "newHotKeyHistory n =
     \<lparr>snapshots = [], maxSize = (if n \<le> 0 then 30 else n), keyMeta = Map.empty\<rparr>"

text \<open>
  The first loop of \<open>Add\<close>, on the pair \<open>(currentMeta, h.keyMeta)\<close>: a new key gets its
  metadata with \<open>PrevCount = 0\<close>, a known key only a new \<open>LastSeen\<close>.
\<close>

definition meta_step :: "int \<Rightarrow> (string \<rightharpoonup> KeyMetadata) \<times> (string \<rightharpoonup> KeyMetadata) \<Rightarrow> KeyCount
    \<Rightarrow> (string \<rightharpoonup> KeyMetadata) \<times> (string \<rightharpoonup> KeyMetadata)" where
  "meta_step now st kc =
     (case st of (currentMeta, km) \<Rightarrow>
        (let existing =
           (case km (kc_Key kc) of
              None \<Rightarrow> \<lparr>FirstSeen = now, LastSeen = now, PrevCount = 0\<rparr>
            | Some existing \<Rightarrow> existing\<lparr>LastSeen := now\<rparr>)
         in (currentMeta(kc_Key kc \<mapsto> existing), km(kc_Key kc \<mapsto> existing))))"

text \<open>The last loop of \<open>Add\<close>: the counts of this list become the previous counts.\<close>

definition prev_step :: "(string \<rightharpoonup> KeyMetadata) \<Rightarrow> KeyCount \<Rightarrow> (string \<rightharpoonup> KeyMetadata)" where
  "prev_step km kc =
     (case km (kc_Key kc) of
        Some meta \<Rightarrow> km(kc_Key kc \<mapsto> meta\<lparr>PrevCount := kc_Count kc\<rparr>)
      | None \<Rightarrow> km)"

definition hotKeyHistory_Add :: "int \<Rightarrow> KeyCount list \<Rightarrow> hotKeyHistory \<Rightarrow> hotKeyHistory" where
  "hotKeyHistory_Add now keys h =
     (case foldl (meta_step now) (Map.empty, keyMeta h) keys of
        (currentMeta, km) \<Rightarrow>
          (let snapshot = \<lparr>Timestamp = now, Keys = keys, KeyMeta = currentMeta\<rparr>;
               appended = snapshots h @ [snapshot];
               kept = (if int (length appended) > maxSize h then tl appended else appended)
           in h\<lparr>snapshots := kept, keyMeta := foldl prev_step km keys\<rparr>))"

definition GetLatest :: "hotKeyHistory \<Rightarrow> HotKeySnapshot option" where
  "GetLatest h = (if length (snapshots h) = 0 then None else Some (last (snapshots h)))"

text \<open>
  The trend of an entry of a snapshot, as \<open>handleHotKeys\<close> derives it (the empty string
  when the snapshot has no metadata for the key).
\<close>

definition trend :: "HotKeySnapshot \<Rightarrow> KeyCount \<Rightarrow> string" where
  "trend snapshot kc =
     (case KeyMeta snapshot (kc_Key kc) of
        None \<Rightarrow> ''''
      | Some meta \<Rightarrow>
          if PrevCount meta = 0 then ''new''
          else if kc_Count kc > PrevCount meta then ''rising''
          else if kc_Count kc < PrevCount meta then ''falling''
          else ''stable'')"

text \<open>A history after a sequence of \<open>Add\<close> calls, each with its clock reading.\<close>

definition run_history :: "int \<Rightarrow> (int \<times> KeyCount list) list \<Rightarrow> hotKeyHistory" where
  "run_history n adds =
     foldl (\<lambda>h (now, keys). hotKeyHistory_Add now keys h) (newHotKeyHistory n) adds"

section \<open>Count-Min Sketch (package algorithm)\<close>

type_synonym bytes = "8 word list"

text \<open>
  The hash of every row is the same closure: FNV-1a over the key, then over the four
  bytes of the seed, low byte first. \<open>fnv_write\<close> is \<open>Write\<close> of Go's \<open>hash/fnv\<close> for the
  32-bit FNV-1a (xor the byte, multiply by the prime); 2166136261 is its offset basis.
\<close>

definition fnv_write :: "32 word \<Rightarrow> bytes \<Rightarrow> 32 word" where
  "fnv_write h data = foldl (\<lambda>hash c. (hash XOR ucast c) * 16777619) h data"

definition hashFunc :: "bytes \<Rightarrow> 32 word \<Rightarrow> 32 word" where
  "hashFunc data s =
     fnv_write (fnv_write 2166136261 data)
       [ucast s, ucast (drop_bit 8 s), ucast (drop_bit 16 s), ucast (drop_bit 24 s)]"

record CountMinSketch =
  depth :: nat
  width :: nat
  matrix :: "64 word list list"

text \<open>
  \<open>NewCountMinSketch\<close> computes the two dimensions from \<open>(epsilon, delta)\<close> in floating
  point (\<open>depth = int(Ceil(Log(1/delta)))\<close>, \<open>width = int(Ceil(E/epsilon))\<close>); here they
  are the arguments. \<open>make\<close> panics on a negative length.
\<close>

definition NewCountMinSketch :: "int \<Rightarrow> int \<Rightarrow> CountMinSketch option" where
  "NewCountMinSketch d w =
     (if d < 0 \<or> w < 0 then None
      else Some \<lparr>depth = nat d, width = nat w,
                 matrix = replicate (nat d) (replicate (nat w) 0)\<rparr>)"

text \<open>
  The column of a key in row \<open>i\<close>: \<open>hashFuncs[i](key, uint32(i)) % uint32(cms.width)\<close>.
  The division panics when \<open>uint32(cms.width)\<close> is 0, an index out of range panics too.
\<close>

definition column :: "CountMinSketch \<Rightarrow> bytes \<Rightarrow> nat \<Rightarrow> nat option" where
  "column cms key i =
     (if (of_nat (width cms) :: 32 word) = 0 then None
      else (let j = unat (hashFunc key (of_nat i) mod of_nat (width cms))
            in if i < length (matrix cms) \<and> j < length (matrix cms ! i) then Some j else None))"

fun add_rows :: "nat list \<Rightarrow> bytes \<Rightarrow> 64 word \<Rightarrow> CountMinSketch \<Rightarrow> CountMinSketch option" where
  "add_rows [] key cnt cms = Some cms"
| "add_rows (i # rows) key cnt cms =
     (case column cms key i of
        None \<Rightarrow> None
      | Some j \<Rightarrow>
          add_rows rows key cnt
            (cms\<lparr>matrix := (matrix cms)[i := (matrix cms ! i)[j := matrix cms ! i ! j + cnt]]\<rparr>))"

definition CountMinSketch_Add :: "bytes \<Rightarrow> 64 word \<Rightarrow> CountMinSketch \<Rightarrow> CountMinSketch option" where
  "CountMinSketch_Add key cnt cms = add_rows [0..<depth cms] key cnt cms"

fun estimate_rows :: "nat list \<Rightarrow> bytes \<Rightarrow> CountMinSketch \<Rightarrow> 64 word \<Rightarrow> 64 word option" where
  "estimate_rows [] key cms cur = Some cur"
| "estimate_rows (i # rows) key cms cur =
     (case column cms key i of
        None \<Rightarrow> None
      | Some j \<Rightarrow>
          estimate_rows rows key cms (if matrix cms ! i ! j < cur then matrix cms ! i ! j else cur))"

text \<open>The running minimum \<open>min\<close> (here \<open>cur\<close>) starts at \<open>math.MaxUint64\<close>.\<close>

definition Estimate :: "bytes \<Rightarrow> CountMinSketch \<Rightarrow> 64 word option" where
  "Estimate key cms = estimate_rows [0..<depth cms] key cms (- 1)"

definition Reset :: "CountMinSketch \<Rightarrow> CountMinSketch" where
  "Reset cms = cms\<lparr>matrix := map (map (\<lambda>_. 0)) (matrix cms)\<rparr>"

text \<open>
  \<open>Decay\<close> replaces every counter \<open>c\<close> by \<open>uint64(float64(c) * factor)\<close>; that float
  computation is the argument \<open>scale\<close>.
\<close>

definition CountMinSketch_Decay :: "(64 word \<Rightarrow> 64 word) \<Rightarrow> CountMinSketch \<Rightarrow> CountMinSketch" where
  "CountMinSketch_Decay scale cms = cms\<lparr>matrix := map (map scale) (matrix cms)\<rparr>"

text \<open>
  A sequence of \<open>Add\<close> calls; a panic ends it. \<open>added_total adds k\<close> is the sum of the
  counts added for the key \<open>k\<close>, \<open>sum_counts adds\<close> the sum of all the counts.
\<close>

fun add_all :: "(bytes \<times> 64 word) list \<Rightarrow> CountMinSketch \<Rightarrow> CountMinSketch option" where
  "add_all [] cms = Some cms"
| "add_all ((key, cnt) # rest) cms =
     (case CountMinSketch_Add key cnt cms of None \<Rightarrow> None | Some cms' \<Rightarrow> add_all rest cms')"

definition added_total :: "('k \<times> 64 word) list \<Rightarrow> 'k \<Rightarrow> nat" where
  "added_total adds k = (\<Sum>(key, cnt)\<leftarrow>adds. if key = k then unat cnt else 0)"

definition sum_counts :: "('k \<times> 64 word) list \<Rightarrow> nat" where
  "sum_counts adds = (\<Sum>(key, cnt)\<leftarrow>adds. unat cnt)"

text \<open>The bytes of a Go string.\<close>

definition bytes_of :: "string \<Rightarrow> bytes" where
  "bytes_of s = map of_char s"

section \<open>Space-Saving (package algorithm)\<close>

record Item =
  Key :: string
  Count :: "64 word"
  Error :: "64 word"
  Index :: int

text \<open>
  The map and the heap hold pointers to the same \<open>Item\<close>s, and the heap's methods write
  the \<open>Index\<close> field through them. A pointer \<open>*Item\<close> is a reference (a number), the
  \<open>Item\<close>s live in a store from references to \<open>Item\<close>s, and \<open>next_ref\<close> is the reference
  that the next \<open>&Item{...}\<close> gets. The map \<open>items\<close> is an association list (looked up
  with \<open>map_of\<close>); its order is the order in which \<open>Decay\<close> ranges over it, which has no
  influence on the result.
\<close>

type_synonym ref = nat

type_synonym SpaceSavingHeap = "ref list"

record SpaceSaving =
  capacity :: int
  items :: "(string \<times> ref) list"
  heap :: SpaceSavingHeap
  mem :: "ref \<Rightarrow> Item"
  next_ref :: ref

text \<open>A heap as the functions of \<open>container/heap\<close> see it: the slice and the store.\<close>

type_synonym heap_state = "SpaceSavingHeap \<times> (ref \<Rightarrow> Item)"

text \<open>\<open>make\<close> panics on a negative capacity.\<close>

definition NewSpaceSaving :: "int \<Rightarrow> (ref \<Rightarrow> Item) \<Rightarrow> ref \<Rightarrow> SpaceSaving option" where
  "NewSpaceSaving c m nxt =
     (if c < 0 then None
      else Some \<lparr>capacity = c, items = [], heap = [], mem = m, next_ref = nxt\<rparr>)"

subsection \<open>The methods of \<open>SpaceSavingHeap\<close>\<close>

definition in_range :: "SpaceSavingHeap \<Rightarrow> int \<Rightarrow> bool" where
  "in_range h i \<longleftrightarrow> 0 \<le> i \<and> i < int (length h)"

definition Len :: "heap_state \<Rightarrow> int" where
  "Len s = int (length (fst s))"

definition Less :: "heap_state \<Rightarrow> int \<Rightarrow> int \<Rightarrow> bool option" where
  "Less s i j =
     (case s of (h, m) \<Rightarrow>
        if in_range h i \<and> in_range h j
        then Some (Count (m (h ! nat i)) < Count (m (h ! nat j)))
        else None)"

definition Swap :: "heap_state \<Rightarrow> int \<Rightarrow> int \<Rightarrow> heap_state option" where
  "Swap s i j =
     (case s of (h, m) \<Rightarrow>
        if in_range h i \<and> in_range h j then
          (let h' = h[nat i := h ! nat j, nat j := h ! nat i];
               m1 = m(h' ! nat i := (m (h' ! nat i))\<lparr>Index := i\<rparr>);
               m2 = m1(h' ! nat j := (m1 (h' ! nat j))\<lparr>Index := j\<rparr>)
           in Some (h', m2))
        else None)"

definition Push :: "heap_state \<Rightarrow> ref \<Rightarrow> heap_state" where
  "Push s item =
     (case s of (h, m) \<Rightarrow> (h @ [item], m(item := (m item)\<lparr>Index := int (length h)\<rparr>)))"

definition Pop :: "heap_state \<Rightarrow> (ref \<times> heap_state) option" where
  "Pop s =
     (case s of (h, m) \<Rightarrow>
        if h = [] then None
        else (let item = last h
              in Some (item, (butlast h, m(item := (m item)\<lparr>Index := - 1\<rparr>)))))"

subsection \<open>Go's \<open>container/heap\<close>\<close>

text \<open>
  \<open>up\<close>, \<open>down\<close>, \<open>Fix\<close>, \<open>Push\<close>, \<open>Pop\<close> and \<open>Init\<close> of the standard library, over the
  methods above. Go's \<open>/\<close> on \<open>int\<close> truncates (\<open>sdiv\<close>): the parent of 0 is 0 and the
  parent of -1 is -1.
\<close>

function up :: "heap_state \<Rightarrow> int \<Rightarrow> heap_state option" where
  "up s j =
     (let i = (j - 1) sdiv 2 in
      if i = j then Some s
      else (case Less s j i of
              None \<Rightarrow> None
            | Some lt \<Rightarrow>
                if \<not> lt then Some s
                else (case Swap s i j of None \<Rightarrow> None | Some s' \<Rightarrow> up s' i)))"
  by pat_completeness auto
termination
proof (relation "measure (\<lambda>(s, j). nat j)", goal_cases)
  case 1
  then show ?case by simp
next
  case (2 s j i lt s')
  then have "0 \<le> j" "0 \<le> i" "i \<noteq> j"
    by (auto simp: Less_def in_range_def split: prod.splits if_splits)
  with 2(1) have "0 < j" "i < j"
    by (auto simp: signed_divide_int_def sgn_if split: if_splits)
  then show ?case by simp
qed

declare up.simps [simp del]

text \<open>
  The loop of \<open>down\<close>; it returns the heap and the last position \<open>i\<close>, and \<open>down\<close> itself
  returns \<open>i > i0\<close>. \<open>child\<close> is the choice of the smaller child \<open>j\<close> among \<open>j1\<close> and
  \<open>j2 = j1 + 1\<close>.
\<close>

definition child :: "heap_state \<Rightarrow> int \<Rightarrow> int \<Rightarrow> int option" where
  "child s j1 n =
     (let j2 = j1 + 1 in
      if j2 < n
      then (case Less s j2 j1 of None \<Rightarrow> None | Some lt \<Rightarrow> Some (if lt then j2 else j1))
      else Some j1)"

function down_loop :: "heap_state \<Rightarrow> int \<Rightarrow> int \<Rightarrow> (heap_state \<times> int) option" where
  "down_loop s i n =
     (let j1 = 2 * i + 1 in
      if j1 \<ge> n \<or> j1 < 0 then Some (s, i)
      else (case child s j1 n of
              None \<Rightarrow> None
            | Some j \<Rightarrow>
                (case Less s j i of
                   None \<Rightarrow> None
                 | Some lt \<Rightarrow>
                     if \<not> lt then Some (s, i)
                     else (case Swap s i j of None \<Rightarrow> None | Some s' \<Rightarrow> down_loop s' j n))))"
  by pat_completeness auto
termination
  by (relation "measure (\<lambda>(s, i, n). nat (n - i))")
     (auto simp: child_def Let_def split: if_splits option.splits)

declare down_loop.simps [simp del]

definition down :: "heap_state \<Rightarrow> int \<Rightarrow> int \<Rightarrow> (heap_state \<times> bool) option" where
  "down s i0 n = (case down_loop s i0 n of None \<Rightarrow> None | Some (s', i) \<Rightarrow> Some (s', i > i0))"

definition heap_Fix :: "heap_state \<Rightarrow> int \<Rightarrow> heap_state option" where
  "heap_Fix s i =
     (case down s i (Len s) of
        None \<Rightarrow> None
      | Some (s', moved) \<Rightarrow> if \<not> moved then up s' i else Some s')"

definition heap_Push :: "heap_state \<Rightarrow> ref \<Rightarrow> heap_state option" where
  "heap_Push s x = (let s' = Push s x in up s' (Len s' - 1))"

definition heap_Pop :: "heap_state \<Rightarrow> (ref \<times> heap_state) option" where
  "heap_Pop s =
     (let n = Len s - 1 in
      case Swap s 0 n of
        None \<Rightarrow> None
      | Some s1 \<Rightarrow> (case down s1 0 n of None \<Rightarrow> None | Some (s2, _) \<Rightarrow> Pop s2))"

function init_loop :: "heap_state \<Rightarrow> int \<Rightarrow> int \<Rightarrow> heap_state option" where
  "init_loop s i n =
     (if i \<ge> 0
      then (case down s i n of None \<Rightarrow> None | Some (s', _) \<Rightarrow> init_loop s' (i - 1) n)
      else Some s)"
  by pat_completeness auto
termination
  by (relation "measure (\<lambda>(s, i, n). nat (i + 1))") auto

declare init_loop.simps [simp del]

definition heap_Init :: "heap_state \<Rightarrow> heap_state option" where
  "heap_Init s = (let n = Len s in init_loop s (n sdiv 2 - 1) n)"

subsection \<open>The operations of \<open>SpaceSaving\<close>\<close>

definition SpaceSaving_Add :: "string \<Rightarrow> 64 word \<Rightarrow> SpaceSaving \<Rightarrow> SpaceSaving option" where
  "SpaceSaving_Add key cnt ss =
     (case map_of (items ss) key of
        Some item \<Rightarrow>
          (let m1 = (mem ss)(item := (mem ss item)\<lparr>Count := Count (mem ss item) + cnt\<rparr>)
           in case heap_Fix (heap ss, m1) (Index (m1 item)) of
                None \<Rightarrow> None
              | Some (h', m') \<Rightarrow> Some (ss\<lparr>heap := h', mem := m'\<rparr>))
      | None \<Rightarrow>
          if int (length (heap ss)) < capacity ss then
            (let item = next_ref ss;
                 m1 = (mem ss)(item := \<lparr>Key = key, Count = cnt, Error = 0, Index = 0\<rparr>)
             in case heap_Push (heap ss, m1) item of
                  None \<Rightarrow> None
                | Some (h', m') \<Rightarrow>
                    Some (ss\<lparr>items := AList.update key item (items ss), heap := h', mem := m',
                             next_ref := Suc item\<rparr>))
          else
            (case heap ss of
               [] \<Rightarrow> None
             | smallest # _ \<Rightarrow>
                 (let newCount = Count (mem ss smallest) + cnt;
                      newError = Count (mem ss smallest);
                      items1 = AList.delete (Key (mem ss smallest)) (items ss);
                      m1 = (mem ss)(smallest :=
                             (mem ss smallest)\<lparr>Key := key, Count := newCount, Error := newError\<rparr>);
                      items2 = AList.update key smallest items1
                  in case heap_Fix (heap ss, m1) 0 of
                       None \<Rightarrow> None
                     | Some (h', m') \<Rightarrow> Some (ss\<lparr>items := items2, heap := h', mem := m'\<rparr>))))"

text \<open>
  The loop of \<open>TopK\<close> pops the copy of the slice until it is empty and appends a copy of
  each \<open>Item\<close> popped. The copy of the slice holds the same pointers, so the \<open>Index\<close>
  fields that \<open>Swap\<close> and \<open>Pop\<close> write are those of the structure's own \<open>Item\<close>s.
\<close>

lemma Swap_length: "Swap s i j = Some s' \<Longrightarrow> length (fst s') = length (fst s)"
  by (auto simp: Swap_def Let_def split: prod.splits if_splits)

text \<open>Induction over a run of \<open>down\<close> that returns.\<close>

lemma down_loop_induct [consumes 1, case_names stop keep swap]:
  assumes run: "down_loop s i n = Some (s', i')"
    and stop: "\<And>s i. n \<le> 2 * i + 1 \<or> 2 * i + 1 < 0 \<Longrightarrow> P s i s i"
    and keep: "\<And>s i j. \<not> (n \<le> 2 * i + 1 \<or> 2 * i + 1 < 0) \<Longrightarrow> child s (2 * i + 1) n = Some j \<Longrightarrow>
                 Less s j i = Some False \<Longrightarrow> P s i s i"
    and swap: "\<And>s i j s1 s' i'. \<not> (n \<le> 2 * i + 1 \<or> 2 * i + 1 < 0) \<Longrightarrow>
                 child s (2 * i + 1) n = Some j \<Longrightarrow> Less s j i = Some True \<Longrightarrow>
                 Swap s i j = Some s1 \<Longrightarrow> down_loop s1 j n = Some (s', i') \<Longrightarrow>
                 P s1 j s' i' \<Longrightarrow> P s i s' i'"
  shows "P s i s' i'"
  using assms
proof (induction s i n arbitrary: s' i' rule: down_loop.induct)
  case (1 s i n)
  note run = "1.prems"(1) and stop = "1.prems"(2) and keep = "1.prems"(3) and swap = "1.prems"(4)
  show ?case
  proof (cases "n \<le> 2 * i + 1 \<or> 2 * i + 1 < 0")
    case True
    with run have "s' = s" "i' = i" by (auto simp: down_loop.simps)
    with True stop show ?thesis by simp
  next
    case F: False
    with run obtain j lt where j: "child s (2 * i + 1) n = Some j" and lt: "Less s j i = Some lt"
      by (subst (asm) down_loop.simps) (auto simp: Let_def split: option.splits)
    show ?thesis
    proof (cases lt)
      case False
      with run F j lt have "s' = s" "i' = i"
        by (auto simp: down_loop.simps [of s i n] Let_def)
      with keep [OF F j] lt False show ?thesis by simp
    next
      case True
      with run F j lt obtain s1 where
        s1: "Swap s i j = Some s1" and r: "down_loop s1 j n = Some (s', i')"
        by (auto simp: down_loop.simps [of s i n] Let_def split: option.splits)
      have "P s1 j s' i'"
      proof (rule "1.IH" [OF refl _ j lt _ s1 r])
        show "\<not> (n \<le> 2 * i + 1 \<or> 2 * i + 1 < 0)" by (rule F)
        show "\<not> \<not> lt" using True by simp
      qed (use stop keep swap in blast)+
      with swap [OF F j _ s1 r] lt True show ?thesis by simp
    qed
  qed
qed

lemma down_loop_length:
  "down_loop s i n = Some (s', i') \<Longrightarrow> length (fst s') = length (fst s)"
  by (induction rule: down_loop_induct) (auto dest: Swap_length)

lemma heap_Pop_length: "heap_Pop s = Some (x, s') \<Longrightarrow> length (fst s') < length (fst s)"
proof -
  assume "heap_Pop s = Some (x, s')"
  then obtain s1 s2 i' where s1: "Swap s 0 (Len s - 1) = Some s1"
      and s2: "down_loop s1 0 (Len s - 1) = Some (s2, i')" and p: "Pop s2 = Some (x, s')"
    by (auto simp: heap_Pop_def down_def Let_def split: option.splits prod.splits)
  from p have "fst s2 \<noteq> []" "length (fst s') = length (fst s2) - 1"
    by (auto simp: Pop_def Let_def split: prod.splits if_splits)
  with Swap_length [OF s1] down_loop_length [OF s2] show ?thesis by (cases "fst s2") auto
qed

function pop_all :: "heap_state \<Rightarrow> Item list \<Rightarrow> (Item list \<times> (ref \<Rightarrow> Item)) option" where
  "pop_all s result =
     (if Len s > 0
      then (case heap_Pop s of
              None \<Rightarrow> None
            | Some (item, s') \<Rightarrow> pop_all s' (result @ [snd s' item]))
      else Some (result, snd s))"
  by pat_completeness auto
termination
  by (relation "measure (\<lambda>(s, result). length (fst s))") (auto dest: heap_Pop_length)

declare pop_all.simps [simp del]

text \<open>
  The swaps of the reversal are \<open>rev\<close>; \<open>result[:k]\<close> panics when \<open>k\<close> is negative.
\<close>

definition SpaceSaving_TopK :: "int \<Rightarrow> SpaceSaving \<Rightarrow> (Item list \<times> SpaceSaving) option" where
  "SpaceSaving_TopK k ss =
     (case pop_all (heap ss, mem ss) [] of
        None \<Rightarrow> None
      | Some (result, m') \<Rightarrow>
          (let k' = (if k > int (length result) then int (length result) else k)
           in if k' < 0 then None
              else Some (take (nat k') (rev result), ss\<lparr>mem := m'\<rparr>)))"

definition SpaceSaving_Count :: "string \<Rightarrow> SpaceSaving \<Rightarrow> 64 word" where
  "SpaceSaving_Count key ss =
     (case map_of (items ss) key of Some item \<Rightarrow> Count (mem ss item) | None \<Rightarrow> 0)"

text \<open>
  \<open>Decay\<close> replaces \<open>Count\<close> and \<open>Error\<close> of every \<open>Item\<close> of the map by
  \<open>uint64(float64(x) * factor)\<close>, which is the argument \<open>scale\<close>, and re-heapifies.
\<close>

definition decay_item :: "(64 word \<Rightarrow> 64 word) \<Rightarrow> (ref \<Rightarrow> Item) \<Rightarrow> string \<times> ref \<Rightarrow> (ref \<Rightarrow> Item)" where
  "decay_item scale m entry =
     (case entry of (key, item) \<Rightarrow>
        m(item := (m item)\<lparr>Count := scale (Count (m item)), Error := scale (Error (m item))\<rparr>))"

definition SpaceSaving_Decay :: "(64 word \<Rightarrow> 64 word) \<Rightarrow> SpaceSaving \<Rightarrow> SpaceSaving option" where
  "SpaceSaving_Decay scale ss =
     (case heap_Init (heap ss, foldl (decay_item scale) (mem ss) (items ss)) of
        None \<Rightarrow> None
      | Some (h', m') \<Rightarrow> Some (ss\<lparr>heap := h', mem := m'\<rparr>))"

definition SpaceSaving_Clear :: "SpaceSaving \<Rightarrow> SpaceSaving" where
  "SpaceSaving_Clear ss = ss\<lparr>items := [], heap := []\<rparr>"

text \<open>A sequence of operations on the structure; a panic ends it.\<close>

datatype ss_op = OpAdd string "64 word" | OpDecay "64 word \<Rightarrow> 64 word" | OpClear

fun ss_step :: "ss_op \<Rightarrow> SpaceSaving \<Rightarrow> SpaceSaving option" where
  "ss_step (OpAdd key cnt) ss = SpaceSaving_Add key cnt ss"
| "ss_step (OpDecay scale) ss = SpaceSaving_Decay scale ss"
| "ss_step OpClear ss = Some (SpaceSaving_Clear ss)"

fun ss_run :: "ss_op list \<Rightarrow> SpaceSaving \<Rightarrow> SpaceSaving option" where
  "ss_run [] ss = Some ss"
| "ss_run (op # ops) ss = (case ss_step op ss of None \<Rightarrow> None | Some ss' \<Rightarrow> ss_run ops ss')"

text \<open>
  A fresh sketch of \<open>d\<close> rows and \<open>w\<close> columns after a sequence of \<open>Add\<close> calls, then
  \<open>Estimate\<close>.
\<close>

definition estimate_after :: "int \<Rightarrow> int \<Rightarrow> (bytes \<times> 64 word) list \<Rightarrow> bytes \<Rightarrow> 64 word option" where
  "estimate_after d w adds k =
     (case NewCountMinSketch d w of
        None \<Rightarrow> None
      | Some cms \<Rightarrow> (case add_all adds cms of None \<Rightarrow> None | Some cms' \<Rightarrow> Estimate k cms'))"

text \<open>
  For the proofs: the shape of the matrix, the column of a key as a number, and the sum
  of the counts that fall into one cell (as a counter, and as a natural number).
\<close>

definition cms_inv :: "CountMinSketch \<Rightarrow> bool" where
  "cms_inv cms \<longleftrightarrow> length (matrix cms) = depth cms \<and> (\<forall>i<depth cms. length (matrix cms ! i) = width cms)
      \<and> 0 < width cms \<and> width cms < 2 ^ 32"

definition col :: "nat \<Rightarrow> bytes \<Rightarrow> nat \<Rightarrow> nat" where
  "col w key i = unat (hashFunc key (of_nat i) mod (of_nat w :: 32 word))"

definition cell_sum :: "nat \<Rightarrow> (bytes \<times> 64 word) list \<Rightarrow> nat \<Rightarrow> nat \<Rightarrow> 64 word" where
  "cell_sum w adds i j = (\<Sum>(key, n)\<leftarrow>adds. if col w key i = j then n else 0)"

definition cell_nat :: "nat \<Rightarrow> (bytes \<times> 64 word) list \<Rightarrow> nat \<Rightarrow> nat \<Rightarrow> nat" where
  "cell_nat w adds i j = (\<Sum>(key, n)\<leftarrow>adds. if col w key i = j then unat n else 0)"

section \<open>Properties\<close>

subsection \<open>Engine lifecycle\<close>

text \<open>
  C9. The claim: \<open>Stop\<close> fails iff the engine is not initialized or not running, and a
  successful \<open>Stop\<close> keeps the initialized singleton. The function does neither: on an
  initialized engine that is not running it returns no error, and whenever it returns
  no error the singleton is cleared.
\<close>

theorem Stop_not_running_succeeds_and_clears:
  "Stop metricsStop (Some \<lparr>metrics = m, isRunning = False\<rparr>) = (None, None)"
  by (simp add: Stop_def)

lemma Stop_success_clears:
  "Stop metricsStop g = (None, g') \<Longrightarrow> g' = None"
  by (auto simp: Stop_def split: option.splits if_splits)

lemma Start_then_Stop_clears:
  "Start None (Some \<lparr>metrics = True, isRunning = False\<rparr>) = (None, Some \<lparr>metrics = True, isRunning = True\<rparr>)
   \<and> Stop None (Some \<lparr>metrics = True, isRunning = True\<rparr>) = (None, None)"
  by (simp add: Start_def Stop_def)

subsection \<open>Policy manager\<close>

lemma register_all_bad_pattern:
  "pattern \<in> set patterns \<Longrightarrow> compile pattern = Inl err \<Longrightarrow>
   \<exists>q e. register_all compile patterns m = Inl (InvalidWhitelistPattern q (InvalidPattern e))"
proof (induction patterns arbitrary: m)
  case Nil
  then show ?case by simp
next
  case (Cons p ps)
  show ?case
  proof (cases "compile p")
    case (Inl e)
    then show ?thesis by (simp add: RegisterPattern_def)
  next
    case (Inr r)
    with Cons.prems have "pattern \<in> set ps" by auto
    from Cons.IH [OF this Cons.prems(2)] Inr show ?thesis
      by (simp add: RegisterPattern_def)
  qed
qed

text \<open>
  C8. The claim: a pattern of \<open>WhitelistPatterns\<close> that does not compile is skipped and
  \<open>New\<close> succeeds. The loop of \<open>New\<close> returns the error of the first such pattern
  instead: with a valid policy type and parameters, \<open>New\<close> fails as soon as one pattern of
  the list does not compile. (A later \<open>RegisterPattern\<close> of the same string fails too.)
\<close>

theorem policy_New_fails_on_bad_pattern:
  "pattern \<in> set (WhitelistPatterns cfg) \<Longrightarrow> compile pattern = Inl err \<Longrightarrow>
   Type cfg = ''local-cache'' \<Longrightarrow> Parameters cfg = LocalCacheParameters params \<Longrightarrow>
   \<exists>q e. policy_New compile cfg = Inl (InvalidWhitelistPattern q (InvalidPattern e))"
  using register_all_bad_pattern [of pattern "WhitelistPatterns cfg" compile err]
  by (simp add: policy_New_def)

theorem policy_New_fails_on_bad_pattern_witness:
  "\<exists>q e. policy_New (\<lambda>s. if s = ''[invalid'' then Inl ''missing closing ]'' else Inr s)
      \<lparr>Type = ''local-cache'',
       Parameters = LocalCacheParameters \<lparr>TTL = 60, Jitter = 0, Capacity = 100, RefreshAhead = 0\<rparr>,
       WhitelistKeys = [],
       WhitelistPatterns = [''user:.*'', ''[invalid'']\<rparr>
     = Inl (InvalidWhitelistPattern q (InvalidPattern e))"
  by (rule policy_New_fails_on_bad_pattern [where pattern = "''[invalid''"
        and err = "''missing closing ]''"]) simp_all

lemma RegisterPattern_bad_pattern:
  "compile pattern = Inl err \<Longrightarrow> RegisterPattern compile pattern m = (Some (InvalidPattern err), m)"
  by (simp add: RegisterPattern_def)

subsection \<open>Local cache\<close>

text \<open>
  C5. The claim: a \<open>SetRequest\<close> with a TTL override \<open>t\<close> is stored and answered with
  TTL \<open>t\<close>. \<open>handleSet\<close> never reads the override: with a configured TTL of 60 seconds
  and no jitter, a request with the override 5 is answered \<open>CacheSet\<close> with TTL 60 and
  the entry expires 60 seconds after the clock reading, not 5.
\<close>

theorem handleSet_ignores_ttl_override:
  "localCachePolicy_Apply \<lparr>now1 = 0, now2 = 0, range_keys = [], randomValue = 0\<rparr> ''k''
     (SetRequest v (Some 5))
     (newLocalCachePolicy \<lparr>TTL = 60, Jitter = 0, Capacity = 100, RefreshAhead = 1\<rparr>)
   = (Inr (CacheSet ''k'' 60),
      \<lparr>config = \<lparr>TTL = 60, Jitter = 0, Capacity = 100, RefreshAhead = 1\<rparr>,
       cache = [''k'' \<mapsto> \<lparr>ci_Key = ''k'', ci_Value = v, Expiration = 60 * Second,
                           RefreshAt = 60 * Second\<rparr>],
       size = 1\<rparr>)"
  by (simp add: localCachePolicy_Apply_def handleSet_def newLocalCachePolicy_def
      calculateTTLWithJitter_def float_to_int_def Let_def)

lemma handleSet_override_irrelevant:
  "handleSet n1 n2 ks r key v t p = handleSet n1 n2 ks r key v None p"
  by (simp add: handleSet_def)

text \<open>
  C6. The claim: the cache never holds more than \<open>N\<close> entries, whatever the keys, the
  empty string included. \<open>evictLRU\<close> uses the empty string for "no entry found", so an
  entry under the key \<open>''''\<close> that is the oldest is never evicted: with capacity 1, a Set
  of the key \<open>''''\<close> and then a Set of the key \<open>''a''\<close> leave two entries.
\<close>

theorem capacity_exceeded_by_empty_key:
  "let p = apply_all
       [(\<lparr>now1 = 0, now2 = 0, range_keys = [], randomValue = 0\<rparr>, '''', SetRequest v None),
        (\<lparr>now1 = 1, now2 = 1, range_keys = [''''], randomValue = 0\<rparr>, ''a'', SetRequest w None)]
       (newLocalCachePolicy \<lparr>TTL = 60, Jitter = 0, Capacity = 1, RefreshAhead = 1\<rparr>)
   in dom (cache p) = {'''', ''a''} \<and> size p = 2 \<and> float_to_int (Capacity (config p)) = 1"
  by (simp add: localCachePolicy_Apply_def handleSet_def newLocalCachePolicy_def evictLRU_def
      evict_step_def calculateTTLWithJitter_def float_to_int_def Let_def dom_def)
    auto

subsection \<open>Snapshot history\<close>

lemma meta_fold_prev:
  "map_option PrevCount (snd (foldl (meta_step now) st L) k) =
     (if k \<in> kc_Key ` set L \<and> snd st k = None then Some 0 else map_option PrevCount (snd st k))"
  by (induction L arbitrary: st)
     (auto simp: meta_step_def Let_def split: option.splits prod.splits)

lemma meta_fold_agree:
  "k \<in> kc_Key ` set L \<or> fst st k = snd st k \<Longrightarrow>
   fst (foldl (meta_step now) st L) k = snd (foldl (meta_step now) st L) k"
  by (induction L arbitrary: st)
     (auto simp: meta_step_def Let_def split: option.splits prod.splits)

lemma prev_fold_dom:
  "(foldl prev_step km L k = None) = (km k = None)"
  by (induction L arbitrary: km) (auto simp: prev_step_def split: option.splits)

lemma prev_fold_count:
  "k \<in> kc_Key ` set L \<or> map_option PrevCount (km k) = Some c \<Longrightarrow>
   \<forall>e\<in>set L. kc_Key e = k \<longrightarrow> kc_Count e = c \<Longrightarrow> km k \<noteq> None \<Longrightarrow>
   map_option PrevCount (foldl prev_step km L k) = Some c"
proof (induction L arbitrary: km)
  case Nil
  then show ?case by simp
next
  case (Cons e L)
  have "map_option PrevCount (foldl prev_step (prev_step km e) L k) = Some c"
  proof (rule Cons.IH)
    show "k \<in> kc_Key ` set L \<or> map_option PrevCount (prev_step km e k) = Some c"
      using Cons.prems by (auto simp: prev_step_def split: option.splits)
    show "\<forall>e\<in>set L. kc_Key e = k \<longrightarrow> kc_Count e = c" using Cons.prems by simp
    show "prev_step km e k \<noteq> None" using Cons.prems by (auto simp: prev_step_def split: option.splits)
  qed
  then show ?case by simp
qed

lemma prev_fold_other:
  "k \<notin> kc_Key ` set L \<Longrightarrow> foldl prev_step km L k = km k"
  by (induction L arbitrary: km) (auto simp: prev_step_def split: option.splits)

lemma Add_keyMeta_prev:
  "k \<in> kc_Key ` set L \<Longrightarrow> \<forall>e\<in>set L. kc_Key e = k \<longrightarrow> kc_Count e = c \<Longrightarrow>
   map_option PrevCount (keyMeta (hotKeyHistory_Add now L h) k) = Some c"
proof -
  assume a: "k \<in> kc_Key ` set L" "\<forall>e\<in>set L. kc_Key e = k \<longrightarrow> kc_Count e = c"
  let ?st = "foldl (meta_step now) (Map.empty, keyMeta h) L"
  have "map_option PrevCount (snd ?st k) \<noteq> None"
    using a(1) by (simp add: meta_fold_prev)
  then have ne: "snd ?st k \<noteq> None" by auto
  have "map_option PrevCount (foldl prev_step (snd ?st) L k) = Some c"
    by (rule prev_fold_count) (use a ne in auto)
  then show ?thesis
    by (simp add: hotKeyHistory_Add_def Let_def split_beta)
qed

lemma Add_maxSize: "maxSize (hotKeyHistory_Add now L h) = maxSize h"
  by (simp add: hotKeyHistory_Add_def Let_def split_beta)

lemma Add_latest:
  "0 < maxSize h \<Longrightarrow>
   GetLatest (hotKeyHistory_Add now L h) =
     Some \<lparr>Timestamp = now, Keys = L, KeyMeta = fst (foldl (meta_step now) (Map.empty, keyMeta h) L)\<rparr>"
  by (cases "snapshots h")
     (auto simp: hotKeyHistory_Add_def GetLatest_def Let_def split_beta)

lemma Add_snapshot_prev:
  "k \<in> kc_Key ` set L \<Longrightarrow>
   map_option PrevCount (fst (foldl (meta_step now) (Map.empty, keyMeta h) L) k) =
     (if keyMeta h k = None then Some 0 else map_option PrevCount (keyMeta h k))"
  using meta_fold_agree [of k L "(Map.empty, keyMeta h)" now]
        meta_fold_prev [of now "(Map.empty, keyMeta h)" L k]
  by simp

lemma run_history_snoc:
  "run_history n (adds @ [(now, L)]) = hotKeyHistory_Add now L (run_history n adds)"
  by (simp add: run_history_def)

lemma run_history_maxSize: "0 < maxSize (run_history n adds)"
  by (induction adds rule: rev_induct)
     (auto simp: run_history_snoc Add_maxSize, simp add: run_history_def newHotKeyHistory_def)

lemma Add_keyMeta_dom:
  "(keyMeta (hotKeyHistory_Add now L h) k = None) = (keyMeta h k = None \<and> k \<notin> kc_Key ` set L)"
proof -
  let ?st = "foldl (meta_step now) (Map.empty, keyMeta h) L"
  have "(snd ?st k = None) = (map_option PrevCount (snd ?st k) = None)" by simp
  also have "\<dots> = (keyMeta h k = None \<and> k \<notin> kc_Key ` set L)"
    by (auto simp: meta_fold_prev)
  finally show ?thesis
    by (simp add: hotKeyHistory_Add_def Let_def prev_fold_dom split_beta)
qed

lemma run_history_keyMeta_dom:
  "(keyMeta (run_history n adds) k = None) = (\<forall>a\<in>set adds. k \<notin> kc_Key ` set (snd a))"
  by (induction adds rule: rev_induct)
     (auto simp: run_history_snoc Add_keyMeta_dom run_history_def newHotKeyHistory_def)

text \<open>
  C7. Two consecutive \<open>Add\<close> calls with the lists \<open>L1\<close> then \<open>L2\<close>, after any earlier
  calls on a history made by \<open>newHotKeyHistory\<close>: the second call's snapshot is the latest
  one and holds \<open>L2\<close>; for a key of both lists whose count in \<open>L1\<close> is \<open>c\<close>, its metadata
  in that snapshot has \<open>PrevCount = c\<close>; for a key of \<open>L2\<close> that no earlier list holds it
  has \<open>PrevCount = 0\<close>. The trend derived from the snapshot is then the comparison of the
  entry's count with \<open>c\<close> (new when \<open>c\<close> is 0, rising, falling or stable), and new for a
  key never seen.
\<close>

theorem snapshot_prev_count:
  "\<exists>snap. GetLatest (run_history n (adds @ [(t1, L1), (t2, L2)])) = Some snap \<and> Keys snap = L2 \<and>
     (\<forall>k c. k \<in> kc_Key ` set L2 \<and> k \<in> kc_Key ` set L1 \<and> (\<forall>e\<in>set L1. kc_Key e = k \<longrightarrow> kc_Count e = c)
        \<longrightarrow> map_option PrevCount (KeyMeta snap k) = Some c) \<and>
     (\<forall>k. k \<in> kc_Key ` set L2 \<and> k \<notin> kc_Key ` set L1 \<and> (\<forall>a\<in>set adds. k \<notin> kc_Key ` set (snd a))
        \<longrightarrow> map_option PrevCount (KeyMeta snap k) = Some 0) \<and>
     (\<forall>kc c. kc \<in> set L2 \<and> kc_Key kc \<in> kc_Key ` set L1 \<and>
           (\<forall>e\<in>set L1. kc_Key e = kc_Key kc \<longrightarrow> kc_Count e = c)
        \<longrightarrow> trend snap kc =
             (if c = 0 then ''new'' else if kc_Count kc > c then ''rising''
              else if kc_Count kc < c then ''falling'' else ''stable'')) \<and>
     (\<forall>kc. kc \<in> set L2 \<and> kc_Key kc \<notin> kc_Key ` set L1 \<and>
           (\<forall>a\<in>set adds. kc_Key kc \<notin> kc_Key ` set (snd a))
        \<longrightarrow> trend snap kc = ''new'')"
proof -
  let ?h0 = "run_history n adds"
  let ?h1 = "hotKeyHistory_Add t1 L1 ?h0"
  let ?snap = "\<lparr>Timestamp = t2, Keys = L2,
                KeyMeta = fst (foldl (meta_step t2) (Map.empty, keyMeta ?h1) L2)\<rparr>"
  have run: "run_history n (adds @ [(t1, L1), (t2, L2)]) = hotKeyHistory_Add t2 L2 ?h1"
    using run_history_snoc [of n "adds @ [(t1, L1)]" t2 L2] run_history_snoc [of n adds t1 L1]
    by simp
  have "0 < maxSize ?h1" by (simp add: Add_maxSize run_history_maxSize)
  then have latest: "GetLatest (hotKeyHistory_Add t2 L2 ?h1) = Some ?snap"
    by (rule Add_latest)
  have both: "map_option PrevCount (KeyMeta ?snap k) = Some c"
    if "k \<in> kc_Key ` set L2" "k \<in> kc_Key ` set L1" "\<forall>e\<in>set L1. kc_Key e = k \<longrightarrow> kc_Count e = c"
    for k c
  proof -
    have "map_option PrevCount (keyMeta ?h1 k) = Some c"
      using that(2,3) by (rule Add_keyMeta_prev)
    then show ?thesis using that(1) by (auto simp: Add_snapshot_prev)
  qed
  have fresh: "map_option PrevCount (KeyMeta ?snap k) = Some 0"
    if "k \<in> kc_Key ` set L2" "k \<notin> kc_Key ` set L1" "\<forall>a\<in>set adds. k \<notin> kc_Key ` set (snd a)"
    for k
  proof -
    have "keyMeta ?h0 k = None" using that(3) by (simp add: run_history_keyMeta_dom)
    then have "keyMeta ?h1 k = None" using that(2) by (simp add: Add_keyMeta_dom)
    then show ?thesis using that(1) by (simp add: Add_snapshot_prev)
  qed
  have tr: "map_option PrevCount (KeyMeta s (kc_Key kc)) = Some c \<Longrightarrow>
      trend s kc = (if c = 0 then ''new'' else if kc_Count kc > c then ''rising''
                    else if kc_Count kc < c then ''falling'' else ''stable'')" for s kc c
    by (auto simp: trend_def split: option.splits)
  have t1: "trend ?snap kc =
             (if c = 0 then ''new'' else if kc_Count kc > c then ''rising''
              else if kc_Count kc < c then ''falling'' else ''stable'')"
    if "kc \<in> set L2" "kc_Key kc \<in> kc_Key ` set L1"
       "\<forall>e\<in>set L1. kc_Key e = kc_Key kc \<longrightarrow> kc_Count e = c" for kc c
    by (rule tr, rule both) (use that in auto)
  have t2: "trend ?snap kc = ''new''"
    if "kc \<in> set L2" "kc_Key kc \<notin> kc_Key ` set L1"
       "\<forall>a\<in>set adds. kc_Key kc \<notin> kc_Key ` set (snd a)" for kc
    using tr [OF fresh, of kc] that by auto
  show ?thesis
    unfolding run latest using both fresh t1 t2 by simp
qed

theorem snapshot_prev_count_witness:
  "\<exists>snap. GetLatest (run_history 5
       [(0, [\<lparr>kc_Key = ''stable'', kc_Count = 100\<rparr>, \<lparr>kc_Key = ''rising'', kc_Count = 50\<rparr>,
             \<lparr>kc_Key = ''falling'', kc_Count = 200\<rparr>]),
        (1, [\<lparr>kc_Key = ''stable'', kc_Count = 100\<rparr>, \<lparr>kc_Key = ''rising'', kc_Count = 80\<rparr>,
             \<lparr>kc_Key = ''falling'', kc_Count = 120\<rparr>, \<lparr>kc_Key = ''new'', kc_Count = 30\<rparr>])]) = Some snap
     \<and> map_option PrevCount (KeyMeta snap ''stable'') = Some 100
     \<and> map_option PrevCount (KeyMeta snap ''rising'') = Some 50
     \<and> map_option PrevCount (KeyMeta snap ''falling'') = Some 200
     \<and> map_option PrevCount (KeyMeta snap ''new'') = Some 0
     \<and> trend snap \<lparr>kc_Key = ''stable'', kc_Count = 100\<rparr> = ''stable''
     \<and> trend snap \<lparr>kc_Key = ''rising'', kc_Count = 80\<rparr> = ''rising''
     \<and> trend snap \<lparr>kc_Key = ''falling'', kc_Count = 120\<rparr> = ''falling''
     \<and> trend snap \<lparr>kc_Key = ''new'', kc_Count = 30\<rparr> = ''new''"
  using snapshot_prev_count [of 5 "[]" 0
       "[\<lparr>kc_Key = ''stable'', kc_Count = 100\<rparr>, \<lparr>kc_Key = ''rising'', kc_Count = 50\<rparr>,
             \<lparr>kc_Key = ''falling'', kc_Count = 200\<rparr>]" 1
       "[\<lparr>kc_Key = ''stable'', kc_Count = 100\<rparr>, \<lparr>kc_Key = ''rising'', kc_Count = 80\<rparr>,
             \<lparr>kc_Key = ''falling'', kc_Count = 120\<rparr>, \<lparr>kc_Key = ''new'', kc_Count = 30\<rparr>]"]
  apply (elim exE conjE)
  subgoal for snap
    apply (rule exI [of _ snap])
    apply (simp)
    done
  done

subsection \<open>Count-Min Sketch\<close>

lemma col_less: "0 < w \<Longrightarrow> w < 2 ^ 32 \<Longrightarrow> col w key i < w"
proof -
  assume w: "0 < w" "w < 2 ^ 32"
  then have u: "unat (of_nat w :: 32 word) = w" by (simp add: unat_of_nat)
  have "unat (hashFunc key (of_nat i) mod (of_nat w :: 32 word)) = unat (hashFunc key (of_nat i)) mod w"
    by (simp add: unat_mod u)
  then show ?thesis using w by (simp add: col_def)
qed

lemma column_inv:
  "cms_inv cms \<Longrightarrow> i < depth cms \<Longrightarrow> column cms key i = Some (col (width cms) key i)"
proof -
  assume a: "cms_inv cms" "i < depth cms"
  then have w: "0 < width cms" "width cms < 2 ^ 32" by (auto simp: cms_inv_def)
  then have "unat (of_nat (width cms) :: 32 word) = width cms" by (simp add: unat_of_nat)
  with w have nz: "(of_nat (width cms) :: 32 word) \<noteq> 0" by auto
  show ?thesis using a nz col_less [OF w, of key i]
    by (simp add: column_def col_def cms_inv_def Let_def)
qed

lemma add_rows_spec:
  "cms_inv cms \<Longrightarrow> set rows \<subseteq> {..<depth cms} \<Longrightarrow> distinct rows \<Longrightarrow>
   \<exists>cms'. add_rows rows key n cms = Some cms' \<and> cms_inv cms' \<and> depth cms' = depth cms
      \<and> width cms' = width cms
      \<and> (\<forall>i<depth cms. \<forall>j<width cms. matrix cms' ! i ! j =
            matrix cms ! i ! j + (if i \<in> set rows \<and> j = col (width cms) key i then n else 0))"
proof (induction rows arbitrary: cms)
  case Nil
  then show ?case by simp
next
  case (Cons r rows)
  let ?j = "col (width cms) key r"
  let ?cms1 = "cms\<lparr>matrix := (matrix cms)[r := (matrix cms ! r)[?j := matrix cms ! r ! ?j + n]]\<rparr>"
  from Cons.prems have r: "r < depth cms" "r \<notin> set rows" by auto
  have c: "column cms key r = Some ?j" using Cons.prems(1) r(1) by (rule column_inv)
  have len: "length (matrix cms) = depth cms" "\<And>i. i < depth cms \<Longrightarrow> length (matrix cms ! i) = width cms"
    using Cons.prems(1) by (auto simp: cms_inv_def)
  have jw: "?j < width cms" using Cons.prems(1) by (auto simp: cms_inv_def intro: col_less)
  have inv1: "cms_inv ?cms1"
    using Cons.prems(1) r(1) by (auto simp: cms_inv_def nth_list_update)
  have "\<exists>cms'. add_rows rows key n ?cms1 = Some cms' \<and> cms_inv cms' \<and> depth cms' = depth ?cms1
      \<and> width cms' = width ?cms1
      \<and> (\<forall>i<depth ?cms1. \<forall>j<width ?cms1. matrix cms' ! i ! j =
            matrix ?cms1 ! i ! j + (if i \<in> set rows \<and> j = col (width ?cms1) key i then n else 0))"
    by (rule Cons.IH [OF inv1]) (use Cons.prems in auto)
  then obtain cms' where s: "add_rows rows key n ?cms1 = Some cms'" "cms_inv cms'"
      "depth cms' = depth cms" "width cms' = width cms"
      and cells: "\<And>i j. i < depth cms \<Longrightarrow> j < width cms \<Longrightarrow> matrix cms' ! i ! j =
            matrix ?cms1 ! i ! j + (if i \<in> set rows \<and> j = col (width cms) key i then n else 0)"
    by auto
  have "matrix cms' ! i ! j =
            matrix cms ! i ! j + (if i \<in> set (r # rows) \<and> j = col (width cms) key i then n else 0)"
    if "i < depth cms" "j < width cms" for i j
    using cells [OF that] that r len jw by (auto simp: nth_list_update)
  with s c show ?case by simp
qed

lemma Add_spec:
  "cms_inv cms \<Longrightarrow>
   \<exists>cms'. CountMinSketch_Add key n cms = Some cms' \<and> cms_inv cms' \<and> depth cms' = depth cms
      \<and> width cms' = width cms
      \<and> (\<forall>i<depth cms. \<forall>j<width cms. matrix cms' ! i ! j =
            matrix cms ! i ! j + (if j = col (width cms) key i then n else 0))"
proof -
  assume "cms_inv cms"
  then show ?thesis
    using add_rows_spec [of cms "[0..<depth cms]" key n]
    by (simp add: CountMinSketch_Add_def subset_iff)
qed

lemma add_all_spec:
  "cms_inv cms \<Longrightarrow>
   \<exists>cms'. add_all adds cms = Some cms' \<and> cms_inv cms' \<and> depth cms' = depth cms
      \<and> width cms' = width cms
      \<and> (\<forall>i<depth cms. \<forall>j<width cms. matrix cms' ! i ! j =
            matrix cms ! i ! j + cell_sum (width cms) adds i j)"
proof (induction adds arbitrary: cms)
  case Nil
  then show ?case by (simp add: cell_sum_def)
next
  case (Cons a adds)
  obtain key n where a: "a = (key, n)" by (cases a)
  from Add_spec [OF Cons.prems, of key n] obtain cms1 where
    s1: "CountMinSketch_Add key n cms = Some cms1" "cms_inv cms1" "depth cms1 = depth cms"
        "width cms1 = width cms"
    and c1: "\<And>i j. i < depth cms \<Longrightarrow> j < width cms \<Longrightarrow> matrix cms1 ! i ! j =
            matrix cms ! i ! j + (if j = col (width cms) key i then n else 0)"
    by auto
  from Cons.IH [OF s1(2)] s1(3,4) obtain cms' where
    s2: "add_all adds cms1 = Some cms'" "cms_inv cms'" "depth cms' = depth cms"
        "width cms' = width cms"
    and c2: "\<And>i j. i < depth cms \<Longrightarrow> j < width cms \<Longrightarrow> matrix cms' ! i ! j =
            matrix cms1 ! i ! j + cell_sum (width cms) adds i j"
    by auto
  have "matrix cms' ! i ! j = matrix cms ! i ! j + cell_sum (width cms) (a # adds) i j"
    if "i < depth cms" "j < width cms" for i j
    using c1 [OF that] c2 [OF that] by (simp add: a cell_sum_def)
  with s1 s2 show ?case by (simp add: a)
qed

lemma New_spec:
  "0 \<le> d \<Longrightarrow> 0 < w \<Longrightarrow> w < 2 ^ 32 \<Longrightarrow>
   \<exists>cms. NewCountMinSketch d w = Some cms \<and> cms_inv cms \<and> depth cms = nat d \<and> width cms = nat w
     \<and> (\<forall>i<nat d. \<forall>j<nat w. matrix cms ! i ! j = 0)"
  by (auto simp: NewCountMinSketch_def cms_inv_def nat_less_iff)

lemma estimate_rows_spec:
  "cms_inv cms \<Longrightarrow> set rows \<subseteq> {..<depth cms} \<Longrightarrow>
   \<exists>r. estimate_rows rows key cms m0 = Some r \<and> r \<le> m0
      \<and> (\<forall>i\<in>set rows. r \<le> matrix cms ! i ! col (width cms) key i)
      \<and> (r = m0 \<or> (\<exists>i\<in>set rows. r = matrix cms ! i ! col (width cms) key i))"
proof (induction rows arbitrary: m0)
  case Nil
  then show ?case by simp
next
  case (Cons i rows)
  let ?c = "matrix cms ! i ! col (width cms) key i"
  let ?m1 = "if ?c < m0 then ?c else m0"
  from Cons.prems have i: "i < depth cms" by simp
  have c: "column cms key i = Some (col (width cms) key i)" using Cons.prems(1) i by (rule column_inv)
  from Cons.IH [of ?m1] Cons.prems obtain r where
    r: "estimate_rows rows key cms ?m1 = Some r" "r \<le> ?m1"
       "\<forall>i\<in>set rows. r \<le> matrix cms ! i ! col (width cms) key i"
       "r = ?m1 \<or> (\<exists>i\<in>set rows. r = matrix cms ! i ! col (width cms) key i)"
    by auto
  have "r \<le> m0" "r \<le> ?c" using r(2) by (auto split: if_splits)
  moreover have "r = m0 \<or> (\<exists>i\<in>set (i # rows). r = matrix cms ! i ! col (width cms) key i)"
    using r(4) by (auto split: if_splits)
  ultimately show ?case using r(1,3) c by simp
qed

lemma cell_nat_le: "cell_nat w adds i j \<le> sum_counts adds"
  by (induction adds) (auto simp: cell_nat_def sum_counts_def)

lemma unat_cell_sum:
  "sum_counts adds < 2 ^ 64 \<Longrightarrow> unat (cell_sum w adds i j) = cell_nat w adds i j"
proof (induction adds)
  case Nil
  then show ?case by (simp add: cell_sum_def cell_nat_def)
next
  case (Cons a adds)
  obtain key n where a: "a = (key, n)" by (cases a)
  from Cons.prems have lt: "unat n + sum_counts adds < 2 ^ 64" by (simp add: a sum_counts_def)
  then have IH: "unat (cell_sum w adds i j) = cell_nat w adds i j" using Cons.IH by simp
  have "unat n + unat (cell_sum w adds i j) < 2 ^ LENGTH(64)"
    using lt cell_nat_le [of w adds i j] IH by simp
  then have "unat (n + cell_sum w adds i j) = unat n + unat (cell_sum w adds i j)"
    by (simp only: unat_add_lem)
  then show ?case using IH by (simp add: a cell_sum_def cell_nat_def)
qed

lemma added_total_le_cell: "added_total adds k \<le> cell_nat w adds i (col w k i)"
  by (induction adds) (auto simp: cell_nat_def added_total_def)

lemma cell_sum_zero:
  "\<forall>(key, n)\<in>set adds. n \<noteq> 0 \<longrightarrow> col w key i \<noteq> j \<Longrightarrow> cell_sum w adds i j = 0"
  by (induction adds) (auto simp: cell_sum_def)

text \<open>
  C1, as amended. On a fresh sketch of \<open>d \<ge> 0\<close> rows and \<open>0 < w < 2^32\<close> columns, after
  any sequence of \<open>Add\<close> calls whose counts sum to less than \<open>2^64\<close>: no call panics,
  \<open>Estimate k\<close> is at least the sum of the counts added for \<open>k\<close>, and \<open>Estimate k\<close> is 0
  when some row has no key added with a non-zero count in the column of \<open>k\<close>.
\<close>

theorem cms_no_underestimate:
  assumes "0 \<le> d" "0 < w" "w < 2 ^ 32" "sum_counts adds < 2 ^ 64"
  shows "\<exists>e. estimate_after d w adds k = Some e \<and> added_total adds k \<le> unat e \<and>
           ((\<exists>i<nat d. \<forall>(key, n)\<in>set adds. n \<noteq> 0 \<longrightarrow>
                hashFunc key (of_nat i) mod of_int w \<noteq> hashFunc k (of_nat i) mod of_int w)
            \<longrightarrow> e = 0)"
proof -
  from New_spec [OF assms(1-3)] obtain cms0 where
    n: "NewCountMinSketch d w = Some cms0" "cms_inv cms0" "depth cms0 = nat d" "width cms0 = nat w"
    and z: "\<And>i j. i < nat d \<Longrightarrow> j < nat w \<Longrightarrow> matrix cms0 ! i ! j = 0"
    by auto
  from add_all_spec [OF n(2), of adds] n(3,4) obtain cms where
    a: "add_all adds cms0 = Some cms" "cms_inv cms" "depth cms = nat d" "width cms = nat w"
    and c: "\<And>i j. i < nat d \<Longrightarrow> j < nat w \<Longrightarrow>
              matrix cms ! i ! j = matrix cms0 ! i ! j + cell_sum (nat w) adds i j"
    by auto
  have colw: "col (nat w) key i < nat w" for key i
    using assms(2,3) by (intro col_less) (auto simp: nat_less_iff)
  have cell: "matrix cms ! i ! col (nat w) k i = cell_sum (nat w) adds i (col (nat w) k i)"
    if "i < nat d" for i
    using c [OF that colw] z [OF that colw] by simp
  from estimate_rows_spec [OF a(2), of "[0..<depth cms]" k "- 1"] a(3,4) obtain e where
    e: "estimate_rows [0..<nat d] k cms (- 1) = Some e"
       "\<forall>i\<in>set [0..<nat d]. e \<le> matrix cms ! i ! col (nat w) k i"
       "e = - 1 \<or> (\<exists>i\<in>set [0..<nat d]. e = matrix cms ! i ! col (nat w) k i)"
    by (auto simp: subset_iff)
  have est: "estimate_after d w adds k = Some e"
    using n(1) a(1,3) e(1) by (simp add: estimate_after_def Estimate_def)
  have tot: "added_total adds k \<le> sum_counts adds"
    by (induction adds) (auto simp: added_total_def sum_counts_def)
  have low: "added_total adds k \<le> unat e"
    using e(3)
  proof
    assume "e = - 1"
    then have "unat e = 2 ^ 64 - 1"
      by (simp add: unsigned_minus_1_eq_mask mask_eq_exp_minus_1)
    then show ?thesis using tot assms(4) by simp
  next
    assume "\<exists>i\<in>set [0..<nat d]. e = matrix cms ! i ! col (nat w) k i"
    then obtain i where i: "i < nat d" "e = matrix cms ! i ! col (nat w) k i" by auto
    then have "unat e = cell_nat (nat w) adds i (col (nat w) k i)"
      using cell [OF i(1)] unat_cell_sum [OF assms(4)] by simp
    then show ?thesis using added_total_le_cell [of adds k "nat w" i] by simp
  qed
  have zero: "e = 0"
    if "\<exists>i<nat d. \<forall>(key, n)\<in>set adds. n \<noteq> 0 \<longrightarrow>
                hashFunc key (of_nat i) mod of_int w \<noteq> hashFunc k (of_nat i) mod of_int w"
  proof -
    from that obtain i where i: "i < nat d"
      and ne: "\<forall>(key, n)\<in>set adds. n \<noteq> 0 \<longrightarrow>
                hashFunc key (of_nat i) mod of_int w \<noteq> hashFunc k (of_nat i) mod of_int w"
      by auto
    have ow: "(of_nat (nat w) :: 32 word) = of_int w" using assms(2) by simp
    have "\<forall>(key, n)\<in>set adds. n \<noteq> 0 \<longrightarrow> col (nat w) key i \<noteq> col (nat w) k i"
      using ne by (auto simp: col_def ow simp flip: word_unat_eq_iff)
    then have "cell_sum (nat w) adds i (col (nat w) k i) = 0" by (rule cell_sum_zero)
    then have "matrix cms ! i ! col (nat w) k i = 0" using cell [OF i] by simp
    moreover have "e \<le> matrix cms ! i ! col (nat w) k i" using e(2) i by simp
    ultimately show ?thesis by simp
  qed
  from est low zero show ?thesis by blast
qed

theorem cms_no_underestimate_witness:
  "\<exists>e z. estimate_after 5 272 [(bytes_of ''a'', 5), (bytes_of ''b'', 3), (bytes_of ''a'', 2)] (bytes_of ''a'') = Some e
      \<and> 7 \<le> unat e
      \<and> estimate_after 5 272 [(bytes_of ''a'', 5), (bytes_of ''b'', 3), (bytes_of ''a'', 2)] (bytes_of ''z'') = Some z
      \<and> z = 0"
proof -
  let ?adds = "[(bytes_of ''a'', 5), (bytes_of ''b'', 3), (bytes_of ''a'', 2 :: 64 word)]"
  have s: "sum_counts ?adds < 2 ^ 64" by (simp add: sum_counts_def)
  have t: "added_total ?adds (bytes_of ''a'') = 7" by (simp add: added_total_def bytes_of_def)
  have h: "\<exists>i<nat 5. \<forall>(key, n)\<in>set ?adds. n \<noteq> 0 \<longrightarrow>
      hashFunc key (of_nat i) mod of_int 272 \<noteq> hashFunc (bytes_of ''z'') (of_nat i) mod of_int 272"
    by (rule exI [of _ 0]) (simp add: hashFunc_def fnv_write_def bytes_of_def)
  from cms_no_underestimate [of 5 272 ?adds "bytes_of ''a''"] s t
  obtain e where e: "estimate_after 5 272 ?adds (bytes_of ''a'') = Some e" "7 \<le> unat e" by auto
  from cms_no_underestimate [of 5 272 ?adds "bytes_of ''z''"] s h
  obtain z where z: "estimate_after 5 272 ?adds (bytes_of ''z'') = Some z" "z = 0" by auto
  from e z show ?thesis by blast
qed

text \<open>
  C1 as stated fails twice. A key that was never added has a positive estimate when
  added keys share its column in every row: on the 5 x 272 sketch of the detector
  (\<open>epsilon = 0.01\<close>, \<open>delta = 0.01\<close>), \<open>al\<close> and \<open>cb\<close> share all five columns. And the
  counters wrap around: after \<open>Add(a, 2^64 - 1)\<close> and \<open>Add(a, 2)\<close> the estimate of \<open>a\<close> is 1.
\<close>

theorem cms_estimate_counterexample:
  "estimate_after 5 272 [(bytes_of ''al'', 7)] (bytes_of ''cb'') = Some 7
   \<and> bytes_of ''cb'' \<notin> fst ` set [(bytes_of ''al'', 7 :: 64 word)]
   \<and> estimate_after 5 272 [(bytes_of ''a'', 18446744073709551615), (bytes_of ''a'', 2)] (bytes_of ''a'') = Some 1
   \<and> added_total [(bytes_of ''a'', 18446744073709551615), (bytes_of ''a'', 2)] (bytes_of ''a'')
       = 18446744073709551617"
proof -
  have "estimate_after 5 272 [(bytes_of ''al'', 7)] (bytes_of ''cb'') = Some 7"
    by code_simp
  moreover have "bytes_of ''cb'' \<notin> fst ` set [(bytes_of ''al'', 7 :: 64 word)]"
    by (simp add: bytes_of_def)
  moreover have "estimate_after 5 272 [(bytes_of ''a'', 18446744073709551615), (bytes_of ''a'', 2)]
      (bytes_of ''a'') = Some 1"
    by code_simp
  moreover have "added_total [(bytes_of ''a'', 18446744073709551615), (bytes_of ''a'', 2)] (bytes_of ''a'')
       = 18446744073709551617"
    by (simp add: added_total_def)
  ultimately show ?thesis by blast
qed

end
